theory Spec2Isabelle
  imports Complex_Main "HOL-Library.Log_Nat" "HOL-Library.Word"
begin

section \<open>Values of the Python program\<close>

text \<open>
  The repository is three Python files: \<^verbatim>\<open>reveng.py\<close> (helpers for reading and printing
  16-bit data), \<^verbatim>\<open>panasonicMeta.py\<close> (the analyser \<^verbatim>\<open>printCont\<close> and the writer
  \<^verbatim>\<open>buildMetadata\<close> of Panasonic CONT files) and \<^verbatim>\<open>pCont.py\<close> (an earlier version of
  both). A \<^verbatim>\<open>bytes\<close> object is a list of 8-bit words, an \<^verbatim>\<open>array('H')\<close> a list of
  16-bit words, a Python \<^verbatim>\<open>int\<close> an unbounded integer, a Python \<^verbatim>\<open>str\<close> the list of
  its code points, and a finite Python \<^verbatim>\<open>float\<close> the rational number it denotes.
  Every exception the modelled code can raise is a value of \<open>py_error\<close>; a function that
  can raise returns \<open>py_error + 'a\<close>.
\<close>

type_synonym byte = "8 word"
type_synonym word16 = "16 word"
type_synonym pystr = "nat list"

datatype py_error =
  IndexError | ValueError | OverflowError | StructError | TypeError | KeyError
  | NameError | EOFError | UnicodeEncodeError

definition py_bind :: "py_error + 'a \<Rightarrow> ('a \<Rightarrow> py_error + 'b) \<Rightarrow> py_error + 'b" where
  "py_bind m f = (case m of Inl e \<Rightarrow> Inl e | Inr v \<Rightarrow> f v)"


text \<open>\<^verbatim>\<open>data[i]\<close> on an array, for an index that is not negative: IndexError out of range.\<close>

definition getw :: "word16 list \<Rightarrow> nat \<Rightarrow> py_error + nat" where
  "getw data i = (if i < length data then Inr (unat (data ! i)) else Inl IndexError)"

text \<open>\<^verbatim>\<open>data[a:b]\<close> for \<open>0 \<le> a \<le> b\<close>: a slice never raises, it is cut at the end.\<close>

definition slice :: "'a list \<Rightarrow> nat \<Rightarrow> nat \<Rightarrow> 'a list" where
  "slice xs a b = take (b - a) (drop a xs)"

subsection \<open>Floating point\<close>

text \<open>
  Python's \<^verbatim>\<open>float\<close> is IEEE 754 binary64. \<open>fl x\<close> is the float nearest to the rational
  \<open>x\<close>: 53 significant bits, ties to the even significand. Overflow and subnormal
  numbers are not modelled; the program's quotients and products stay far from both.
  \<open>rhe\<close> rounds to the nearest integer, ties to even; \<open>ilog2 x\<close> is the exponent
  \<open>\<lfloor>log\<^sub>2 x\<rfloor>\<close> of a positive \<open>x\<close>, computed from the bit lengths of numerator and
  denominator.
\<close>

definition rhe :: "rat \<Rightarrow> int" where
  "rhe x = (let f = \<lfloor>x\<rfloor>; d = x - of_int f
            in if d < 1 / 2 then f else if 1 / 2 < d then f + 1
               else if even f then f else f + 1)"

definition ilog2 :: "rat \<Rightarrow> int" where
  "ilog2 x = (case quotient_of x of (p, q) \<Rightarrow>
      let d = int (floorlog 2 (nat p)) - int (floorlog 2 (nat q))
      in if 2 powi d \<le> x then d else d - 1)"

definition fl :: "rat \<Rightarrow> rat" where
  "fl x = (if x = 0 then 0
           else let e = ilog2 \<bar>x\<bar> - 52
                in sgn x * of_int (rhe (\<bar>x\<bar> / 2 powi e)) * 2 powi e)"

text \<open>\<^verbatim>\<open>a / b\<close> on two ints is the correctly rounded quotient (ZeroDivisionError does not
  arise: the program divides by literals). \<^verbatim>\<open>int(x)\<close> truncates towards zero.\<close>

definition py_truediv :: "int \<Rightarrow> int \<Rightarrow> rat" where
  "py_truediv a b = fl (of_int a / of_int b)"

definition py_int :: "rat \<Rightarrow> int" where
  "py_int x = (if 0 \<le> x then \<lfloor>x\<rfloor> else \<lceil>x\<rceil>)"

subsection \<open>datetime\<close>

record datetime =
  year :: nat
  month :: nat
  day :: nat
  hour :: nat
  minute :: nat
  second :: nat
  microsecond :: nat

definition is_leap :: "nat \<Rightarrow> bool" where
  "is_leap y = (y mod 4 = 0 \<and> (y mod 100 \<noteq> 0 \<or> y mod 400 = 0))"

definition days_in_month :: "nat \<Rightarrow> nat \<Rightarrow> nat" where
  "days_in_month y m =
     (if m = 2 then (if is_leap y then 29 else 28)
      else if m = 4 \<or> m = 6 \<or> m = 9 \<or> m = 11 then 30 else 31)"

text \<open>The class invariant of \<^verbatim>\<open>datetime.datetime\<close>: what its constructor checks.\<close>

definition valid_datetime :: "datetime \<Rightarrow> bool" where
  "valid_datetime d =
     (1 \<le> year d \<and> year d \<le> 9999 \<and> 1 \<le> month d \<and> month d \<le> 12 \<and>
      1 \<le> day d \<and> day d \<le> days_in_month (year d) (month d) \<and>
      hour d < 24 \<and> minute d < 60 \<and> second d < 60 \<and> microsecond d < 1000000)"

text \<open>\<^verbatim>\<open>datetime.datetime(y, m, d, hh, mm, ss)\<close>: ValueError unless the fields are in range.\<close>

definition datetime_new :: "nat \<Rightarrow> nat \<Rightarrow> nat \<Rightarrow> nat \<Rightarrow> nat \<Rightarrow> nat \<Rightarrow> py_error + datetime" where
  "datetime_new y m d hh mm ss =
     (let dt = \<lparr>year = y, month = m, day = d, hour = hh, minute = mm, second = ss,
                microsecond = 0\<rparr>
      in if valid_datetime dt then Inr dt else Inl ValueError)"

text \<open>Proleptic Gregorian day numbers, as \<^verbatim>\<open>date.toordinal\<close> counts them: 0001-01-01 is day 1
  and \<^verbatim>\<open>datetime.max\<close> lies on day \<open>MAXORDINAL\<close>.\<close>

definition days_before_year :: "nat \<Rightarrow> nat" where
  "days_before_year y = (y - 1) * 365 + (y - 1) div 4 + (y - 1) div 400 - (y - 1) div 100"

definition ordinal_jan1 :: "nat \<Rightarrow> nat" where
  "ordinal_jan1 y = days_before_year y + 1"

definition MAXORDINAL :: nat where
  "MAXORDINAL = 3652059"

definition us_per_day :: nat where
  "us_per_day = 86400000000"









section \<open>reveng.py\<close>

text \<open>
  \<^verbatim>\<open>extractChars(data)\<close>: every nonzero value becomes its character (\<^verbatim>\<open>chr\<close> raises
  ValueError from 0x110000 on, which the function turns into a question mark); a zero
  appends a line feed unless the string is still empty or already ends in one.
\<close>

fun extractChars_loop :: "nat list \<Rightarrow> pystr \<Rightarrow> pystr" where
  "extractChars_loop [] s = s"
| "extractChars_loop (a # as) s =
     extractChars_loop as
       (if a = 0 then (if s \<noteq> [] \<and> last s \<noteq> 10 then s @ [10] else s)
        else if a < 1114112 then s @ [a] else s @ [63])"

definition extractChars :: "nat list \<Rightarrow> pystr" where
  "extractChars data = extractChars_loop data []"

text \<open>
  \<^verbatim>\<open>array.fromfile(f, count)\<close> followed by \<^verbatim>\<open>byteswap\<close> when the requested byte order is
  not the machine's. \<open>words_le\<close> reads pairs of bytes low byte first, \<open>words_be\<close> high byte
  first; a trailing single byte is not part of any item.
\<close>

fun words_le :: "byte list \<Rightarrow> word16 list" where
  "words_le (a # b # bs) = (word_of_nat (unat a + 256 * unat b)) # words_le bs"
| "words_le bs = []"






section \<open>panasonicMeta.py: analysing a CONT file\<close>




text \<open>
  \<^verbatim>\<open>readContTimestamp(data)\<close> is
  \<^verbatim>\<open>datetime.datetime(data[1],data[2],data[4],data[5],data[6],data[7])\<close> on the 8-word
  slice it is given: the six arguments are read first, from left to right.
\<close>

definition readContTimestamp :: "word16 list \<Rightarrow> py_error + datetime" where
  "readContTimestamp data =
     py_bind (getw data 1) (\<lambda>y. py_bind (getw data 2) (\<lambda>m. py_bind (getw data 4) (\<lambda>d.
     py_bind (getw data 5) (\<lambda>hh. py_bind (getw data 6) (\<lambda>mm. py_bind (getw data 7) (\<lambda>ss.
       datetime_new y m d hh mm ss))))))"

text \<open>
  \<^verbatim>\<open>filetimeToTimestamp(data)\<close> on a 4-word slice. \<^verbatim>\<open>filetime/10\<close> is a float;
  \<^verbatim>\<open>timedelta(microseconds=usecs)\<close> rounds it to whole microseconds, ties to even; adding
  the timedelta to \<^verbatim>\<open>datetime(1601,1,1)\<close> raises OverflowError when the day passes
  \<^verbatim>\<open>datetime.max\<close>. The datetime that results is given by the microseconds it lies after
  1601-01-01T00:00:00.
\<close>

definition filetime_of_words :: "word16 list \<Rightarrow> py_error + nat" where
  "filetime_of_words data =
     py_bind (getw data 3) (\<lambda>d3. py_bind (getw data 2) (\<lambda>d2.
     py_bind (getw data 1) (\<lambda>d1. py_bind (getw data 0) (\<lambda>d0.
       Inr (d3 * 2 ^ 48 + d2 * 2 ^ 32 + d1 * 2 ^ 16 + d0)))))"

definition add_to_1601 :: "nat \<Rightarrow> py_error + nat" where
  "add_to_1601 us =
     (if ordinal_jan1 1601 + us div us_per_day \<le> MAXORDINAL then Inr us
      else Inl OverflowError)"

definition filetimeToTimestamp :: "word16 list \<Rightarrow> py_error + nat" where
  "filetimeToTimestamp data =
     py_bind (filetime_of_words data) (\<lambda>filetime.
       let usecs = py_truediv (int filetime) 10
       in add_to_1601 (nat (rhe usecs)))"

text \<open>
  What a run of \<^verbatim>\<open>printCont\<close> prints, as the sequence of the values it passes to
  \<^verbatim>\<open>print\<close>. Headings, blank lines and the hexadecimal and decimal dumps of slices are
  left out: they read no single word and cannot raise.

  \<^verbatim>\<open>print\<close> of a string encodes it for the standard output, UTF-8 with the strict
  error handler unless the environment says otherwise; a surrogate code point
  (\<^verbatim>\<open>0xD800\<close> to \<^verbatim>\<open>0xDFFF\<close>), which \<^verbatim>\<open>chr\<close> accepts, then raises UnicodeEncodeError.
\<close>

definition py_print :: "pystr \<Rightarrow> py_error + pystr" where
  "py_print s =
     (if list_ex (\<lambda>c. 55296 \<le> c \<and> c \<le> 57343) s then Inl UnicodeEncodeError else Inr s)"

datatype out_item =
    FileType pystr
  | Recorded datetime | RecordedUTC datetime | LastModified datetime | FileCreated datetime
  | FileSize nat
  | UnknownData nat | Unknown nat | UnknownFlag nat | UnknownConst nat | Origin pystr
  | FrameSize nat nat | AspectRatio nat nat | FrameRate nat
  | StreamID nat | Bitrate nat | Bitdepth nat | Channels nat | Frequency nat
  | Brand pystr | Device pystr
  | Datestamp pystr
  | VideoFile | VideoSize nat | ThumbnailFile | XmlFile | CreationDate nat | FileName pystr

text \<open>
  The header-length loop,
  \<^verbatim>\<open>for n in range(29,38,1): if data[n] == data[n+8] == data[n+16] == data[n+24]
  and data[n+1] == data[n+9]: break\<close>.
  The comparison chain reads its operands from left to right and stops at the first
  comparison that fails. After the loop \<open>n\<close> keeps the value of the last iteration,
  whether it ended by \<^verbatim>\<open>break\<close> or not.
\<close>

definition header_test :: "word16 list \<Rightarrow> nat \<Rightarrow> py_error + bool" where
  "header_test data n =
     py_bind (getw data n) (\<lambda>a. py_bind (getw data (n + 8)) (\<lambda>b.
       if a \<noteq> b then Inr False
       else py_bind (getw data (n + 16)) (\<lambda>c.
         if b \<noteq> c then Inr False
         else py_bind (getw data (n + 24)) (\<lambda>d.
           if c \<noteq> d then Inr False
           else py_bind (getw data (n + 1)) (\<lambda>e. py_bind (getw data (n + 9)) (\<lambda>f.
             Inr (e = f)))))))"

fun header_loop :: "word16 list \<Rightarrow> nat list \<Rightarrow> py_error + nat" where
  "header_loop data [] = Inl NameError"
| "header_loop data [n] =
     (case header_test data n of Inl e \<Rightarrow> Inl e | Inr b \<Rightarrow> Inr n)"
| "header_loop data (n # m # ns) =
     (case header_test data n of
        Inl e \<Rightarrow> Inl e
      | Inr b \<Rightarrow> if b then Inr n else header_loop data (m # ns))"

definition candidates :: "nat list" where
  "candidates = [29..<38]"

definition detect_header :: "word16 list \<Rightarrow> py_error + nat" where
  "detect_header data = header_loop data candidates"

text \<open>The inner loop of the datestamp branch, \<^verbatim>\<open>while data[x] != 0: x += 1\<close>.\<close>

function find_zero :: "word16 list \<Rightarrow> nat \<Rightarrow> py_error + nat" where
  "find_zero data x =
     (if x < length data then (if data ! x \<noteq> 0 then find_zero data (x + 1) else Inr x)
      else Inl IndexError)"
  by pat_completeness auto
termination
  by (relation "measure (\<lambda>(data, x). length data - x)") auto

declare find_zero.simps [simp del]

text \<open>\<^verbatim>\<open>int(data[x-1] / 2)\<close>: a float division, then truncation.\<close>

definition str_len_of :: "nat \<Rightarrow> nat" where
  "str_len_of v = nat (py_int (py_truediv (int v) 2))"

text \<open>
  One pass through the body of \<^verbatim>\<open>while i < len(data)\<close>, entered with \<open>i < len(data)\<close>:
  the branch for the tag \<^verbatim>\<open>data[i]\<close> with its pointer update, then the final
  \<^verbatim>\<open>i += 1\<close>. The result is what was printed and the new value of \<open>i\<close>.
\<close>

definition file_lines :: "bool \<Rightarrow> out_item list \<Rightarrow> pystr \<Rightarrow> py_error + out_item list" where
  "file_lines unknown_fields items name =
     (if \<not> unknown_fields then py_bind (py_print name) (\<lambda>s. Inr (items @ [FileName s]))
      else Inr [])"

definition scan_body :: "bool \<Rightarrow> word16 list \<Rightarrow> nat \<Rightarrow> py_error + (out_item list \<times> nat)" where
  "scan_body unknown_fields data i =
     py_bind (getw data i) (\<lambda>element.
       if element = 22 then
         py_bind (find_zero data (i + 2)) (\<lambda>x.
         py_bind (py_print (extractChars (map unat (slice data (i + 2) x)))) (\<lambda>s.
           Inr ([Datestamp s], x + 1)))
       else if element = 1 then
         py_bind (getw data (i + 9)) (\<lambda>hi. py_bind (getw data (i + 8)) (\<lambda>lo.
         py_bind (filetimeToTimestamp (slice data (i + 12) (i + 16))) (\<lambda>file_date.
         let x = i + 17 in
         py_bind (getw data (x - 1)) (\<lambda>v.
         let str_len = str_len_of v; str_data = slice data x (x + str_len) in
         py_bind (file_lines unknown_fields
                    [VideoSize (hi * 2 ^ 16 + lo), CreationDate file_date]
                    (extractChars (map unat str_data))) (\<lambda>lines.
           Inr (VideoFile # lines, x + str_len + 1))))))
       else if element = 2 then
         py_bind (filetimeToTimestamp (slice data (i + 8) (i + 12))) (\<lambda>file_date.
         let x = i + 13 in
         py_bind (getw data (x - 1)) (\<lambda>v.
         let str_len = str_len_of v; str_data = slice data x (x + str_len) in
         py_bind (file_lines unknown_fields [CreationDate file_date]
                    (extractChars (map unat str_data))) (\<lambda>lines.
           Inr (ThumbnailFile # lines, x + str_len + 1))))
       else if element = 4 then
         py_bind (filetimeToTimestamp (slice data (i + 2) (i + 6))) (\<lambda>file_date.
         let x = i + 7 in
         py_bind (getw data (x - 1)) (\<lambda>v.
         let str_len = str_len_of v; str_data = slice data x (x + str_len) in
         py_bind (file_lines unknown_fields [CreationDate file_date]
                    (extractChars (map unat str_data))) (\<lambda>lines.
           Inr (XmlFile # lines, x + str_len + 1))))
       else Inr ([], i + 1))"

lemma py_bind_Inr [simp]: "py_bind (Inr v) f = f v"
  by (simp add: py_bind_def)

lemma py_bind_Inl [simp]: "py_bind (Inl e) f = Inl e"
  by (simp add: py_bind_def)

lemma py_bind_InrE:
  assumes "py_bind m f = Inr r"
  obtains v where "m = Inr v" and "f v = Inr r"
  using assms by (cases m) (auto simp: py_bind_def)





text \<open>The parts of \<^verbatim>\<open>printCont\<close> before the loop, in the order of the source.\<close>

definition file_metadata :: "bool \<Rightarrow> word16 list \<Rightarrow> nat \<Rightarrow> py_error + (out_item list \<times> nat)" where
  "file_metadata unknown_fields data n =
     (if \<not> unknown_fields then
        py_bind (readContTimestamp (slice data n (n + 8))) (\<lambda>t1.
        py_bind (readContTimestamp (slice data (n + 8) (n + 16))) (\<lambda>t2.
        py_bind (readContTimestamp (slice data (n + 16) (n + 24))) (\<lambda>t3.
        py_bind (readContTimestamp (slice data (n + 24) (n + 32))) (\<lambda>t4.
        let n = n + 33 in
        py_bind (getw data (n + 1)) (\<lambda>hi. py_bind (getw data n) (\<lambda>lo.
          Inr ([Recorded t1, RecordedUTC t2, LastModified t3, FileCreated t4,
                FileSize (hi * 2 ^ 16 + lo)], n + 2)))))))
      else Inr ([], n + 35))"








section \<open>panasonicMeta.py: writing a CONT file\<close>

text \<open>
  \<^verbatim>\<open>struct.pack(fmt, v)\<close> for the four formats of the source, \<^verbatim>\<open>'<H'\<close>, \<^verbatim>\<open>'<I'\<close>,
  \<^verbatim>\<open>'<Q'\<close> and \<^verbatim>\<open>'B'\<close>: the little-endian bytes of \<open>v\<close>, or \<^verbatim>\<open>struct.error\<close> when
  \<open>v\<close> is negative or too large for the format.
\<close>

datatype pack_fmt = Fmt_H | Fmt_I | Fmt_Q | Fmt_B

fun fmt_size :: "pack_fmt \<Rightarrow> nat" where
  "fmt_size Fmt_H = 2"
| "fmt_size Fmt_I = 4"
| "fmt_size Fmt_Q = 8"
| "fmt_size Fmt_B = 1"

definition le_bytes :: "nat \<Rightarrow> int \<Rightarrow> byte list" where
  "le_bytes k v = map (\<lambda>j. word_of_int (v div 256 ^ j)) [0..<k]"

definition struct_pack :: "pack_fmt \<Rightarrow> int \<Rightarrow> py_error + byte list" where
  "struct_pack f v =
     (if 0 \<le> v \<and> v < 256 ^ fmt_size f then Inr (le_bytes (fmt_size f) v)
      else Inl StructError)"

text \<open>
  An entry of \<^verbatim>\<open>file_structure\<close> is a dict with the keys \<^verbatim>\<open>'data'\<close>, \<^verbatim>\<open>'raw'\<close> and,
  optionally, \<^verbatim>\<open>'fmt'\<close>, \<^verbatim>\<open>'prenul'\<close> and \<^verbatim>\<open>'length'\<close>. Its data is a \<^verbatim>\<open>bytes\<close> object, a
  \<^verbatim>\<open>str\<close>, a list of ints or one int.
\<close>

datatype chars = PyBytes "byte list" | PyStr pystr | PyList "int list" | PyInt int

record element =
  el_data :: chars
  el_fmt :: "pack_fmt option"
  el_raw :: bool
  el_prenul :: "nat option"
  el_length :: "nat option"

text \<open>\<^verbatim>\<open>for c in cs: data += struct.pack(element['fmt'], c)\<close>; a missing \<^verbatim>\<open>'fmt'\<close> is
  a KeyError at the first item.\<close>

fun pack_each :: "pack_fmt option \<Rightarrow> int list \<Rightarrow> byte list \<Rightarrow> py_error + byte list" where
  "pack_each f [] data = Inr data"
| "pack_each None (c # cs) data = Inl KeyError"
| "pack_each (Some f) (c # cs) data =
     py_bind (struct_pack f c) (\<lambda>b. pack_each (Some f) cs (data @ b))"

text \<open>
  The body of \<^verbatim>\<open>for element in file_structure\<close>: the NUL bytes before the field, the
  field itself (raw bytes, the characters of a string, the items of a list or, after the
  TypeError of iterating an int, the int), then the zero fill up to \<^verbatim>\<open>element['length']\<close>
  when that is more than what the element has added.
\<close>

definition add_element :: "byte list \<Rightarrow> element \<Rightarrow> py_error + byte list" where
  "add_element data0 element =
     (let chars = el_data element;
          start = length data0;
          data1 = (case el_prenul element of
                     None \<Rightarrow> data0
                   | Some k \<Rightarrow> if 0 < k then data0 @ replicate k 0 else data0)
      in py_bind
           (if el_raw element then
              (case chars of PyBytes bs \<Rightarrow> Inr (data1 @ bs) | _ \<Rightarrow> Inl TypeError)
            else
              (case chars of
                 PyStr cs \<Rightarrow> pack_each (el_fmt element) (map int cs) data1
               | PyBytes bs \<Rightarrow> pack_each (el_fmt element) (map uint bs) data1
               | PyList cs \<Rightarrow> pack_each (el_fmt element) cs data1
               | PyInt c \<Rightarrow> pack_each (el_fmt element) [c] data1))
           (\<lambda>data2.
              let diff = length data2 - start
              in case el_length element of
                   None \<Rightarrow> Inr data2
                 | Some l \<Rightarrow> if diff < l then Inr (data2 @ replicate (l - diff) 0)
                             else Inr data2))"


text \<open>The entries as the source writes them: raw bytes, and packed data.\<close>

definition raw_el :: "byte list \<Rightarrow> nat option \<Rightarrow> element" where
  "raw_el bs pre =
     \<lparr>el_data = PyBytes bs, el_fmt = None, el_raw = True, el_prenul = pre, el_length = None\<rparr>"

definition packed_el :: "chars \<Rightarrow> pack_fmt \<Rightarrow> nat option \<Rightarrow> nat option \<Rightarrow> element" where
  "packed_el c f pre len =
     \<lparr>el_data = c, el_fmt = Some f, el_raw = False, el_prenul = pre, el_length = len\<rparr>"

text \<open>\<^verbatim>\<open>makeWindowsFiletime(unix_time)\<close> on a float: \<^verbatim>\<open>unix_time*10000000\<close> is a float
  product, \<^verbatim>\<open>int\<close> truncates it.\<close>

definition makeWindowsFiletime :: "rat \<Rightarrow> int" where
  "makeWindowsFiletime unix_time =
     (let n = py_int (fl (unix_time * 10000000)) in 116444736000000000 + n)"




text \<open>The \<^verbatim>\<open>params\<close> dict of \<^verbatim>\<open>buildMetadata\<close>.\<close>

record params =
  file_created :: datetime
  file_modified :: datetime
  file_size :: int
  audio_stream :: int
  audio_bitrate :: int
  audio_bitdepth :: int
  audio_channels :: int
  audio_frequency :: int
  record_dt :: datetime
  record_dt_utc :: datetime

text \<open>
  What \<^verbatim>\<open>buildMetadata\<close> has in hand when it builds the CONT file: \<^verbatim>\<open>params\<close>, the base
  name \<^verbatim>\<open>fname\<close> of the video file and its creation time, and the names and creation
  times of the two sidecar files it has just written. The times are the floats the
  file system gave.
\<close>

record cont_input =
  par :: params
  fname :: pystr
  m2ts_creation_date :: rat
  tmb_file :: pystr
  tmb_creation_date :: rat
  pmpd_file :: pystr
  pmpd_creation_date :: rat











section \<open>Facts about the float model\<close>

text \<open>The exponent \<open>ilog2\<close> is the one that brackets its argument between two powers of
  two, floats with at most 53 significant bits are their own rounding, and rounding
  moves a positive number by at most the fraction \<open>2\<^sup>-\<^sup>5\<^sup>3\<close> of it.\<close>

lemma floorlog2_rat:
  assumes "0 < (n::int)"
  shows "(2::rat) powi (int (floorlog 2 (nat n)) - 1) \<le> of_int n"
    and "of_int n < (2::rat) powi (int (floorlog 2 (nat n)))"
    and "1 \<le> floorlog 2 (nat n)"
proof -
  let ?a = "floorlog 2 (nat n)"
  have pos: "0 < nat n" using assms by simp
  have b: "2 ^ (?a - 1) \<le> nat n" "nat n < 2 ^ ?a"
    using floorlog_bounds [of "nat n" 2] pos by auto
  have "?a \<noteq> 0"
    using floorlog_eq_zero_iff [of 2 "nat n"] pos by simp
  then show a1: "1 \<le> ?a" by simp
  have n: "(of_nat (nat n) :: rat) = of_int n" using assms by simp
  have e1: "(2::rat) powi (int ?a - 1) = of_nat (2 ^ (?a - 1))"
  proof -
    have "int ?a - 1 = int (?a - 1)" using a1 by simp
    then have "(2::rat) powi (int ?a - 1) = 2 powi (int (?a - 1))" by (simp only:)
    also have "\<dots> = 2 ^ (?a - 1)" by (rule power_int_of_nat)
    finally show ?thesis by (simp only: of_nat_power of_nat_numeral)
  qed
  have e2: "(2::rat) powi (int ?a) = of_nat (2 ^ ?a)"
    by (simp only: power_int_of_nat of_nat_power of_nat_numeral)
  have "(of_nat (2 ^ (?a - 1)) :: rat) \<le> of_nat (nat n)"
    using b(1) by (simp only: of_nat_le_iff)
  then show "(2::rat) powi (int ?a - 1) \<le> of_int n"
    by (simp only: e1 n)
  have "(of_nat (nat n) :: rat) < of_nat (2 ^ ?a)"
    using b(2) by (simp only: of_nat_less_iff)
  then show "of_int n < (2::rat) powi (int ?a)"
    by (simp only: e2 n)
qed

lemma ilog2_bounds:
  assumes "0 < x"
  shows "2 powi (ilog2 x) \<le> x \<and> x < 2 powi (ilog2 x + 1)"
proof -
  obtain p q where pq: "quotient_of x = (p, q)" by (cases "quotient_of x")
  have q: "0 < q" using quotient_of_denom_pos [OF pq] .
  have x: "x = of_int p / of_int q" using quotient_of_div [OF pq] .
  have p: "0 < p" using assms q x by (simp add: zero_less_divide_iff)
  define a where "a = int (floorlog 2 (nat p))"
  define b where "b = int (floorlog 2 (nat q))"
  define d where "d = a - b"
  have pa: "(2::rat) powi (a - 1) \<le> of_int p" "of_int p < (2::rat) powi a"
    using floorlog2_rat [OF p] by (simp_all add: a_def)
  have qb: "(2::rat) powi (b - 1) \<le> of_int q" "of_int q < (2::rat) powi b"
    using floorlog2_rat [OF q] by (simp_all add: b_def)
  have qpos: "(0::rat) < of_int q" using q by simp
  have up: "x < 2 powi (d + 1)"
  proof -
    have "(2::rat) powi ((d + 1) + (b - 1)) = 2 powi (d + 1) * 2 powi (b - 1)"
      by (rule power_int_add) simp
    moreover have "(d + 1) + (b - 1) = a" by (simp add: d_def)
    ultimately have "(2::rat) powi a = 2 powi (d + 1) * 2 powi (b - 1)" by simp
    also have "\<dots> \<le> 2 powi (d + 1) * of_int q"
      using qb(1) by (simp add: mult_left_mono)
    finally have "of_int p < 2 powi (d + 1) * (of_int q :: rat)"
      using pa(2) by simp
    then show ?thesis using qpos by (simp add: x pos_divide_less_eq)
  qed
  have lo: "2 powi (d - 1) < x"
  proof -
    have "2 powi (d - 1) * (of_int q :: rat) < 2 powi (d - 1) * 2 powi b"
      using qb(2) by (simp add: mult_strict_left_mono)
    also have "\<dots> = 2 powi (a - 1)"
    proof -
      have "(2::rat) powi ((d - 1) + b) = 2 powi (d - 1) * 2 powi b"
        by (rule power_int_add) simp
      moreover have "(d - 1) + b = a - 1" by (simp add: d_def)
      ultimately show ?thesis by simp
    qed
    finally have "2 powi (d - 1) * (of_int q :: rat) < of_int p"
      using pa(1) by simp
    then show ?thesis using qpos by (simp add: x pos_less_divide_eq)
  qed
  have il: "ilog2 x = (if 2 powi d \<le> x then d else d - 1)"
    by (simp add: ilog2_def pq a_def b_def d_def Let_def)
  show ?thesis
  proof (cases "2 powi d \<le> x")
    case True
    then show ?thesis using up il by simp
  next
    case False
    then show ?thesis using lo il by simp
  qed
qed

lemma ilog2_unique:
  assumes "2 powi e \<le> x" and "x < 2 powi (e + 1)"
  shows "ilog2 x = e"
proof -
  have "(0::rat) < 2 powi e" by (simp add: zero_less_power_int)
  with assms(1) have pos: "0 < x" by linarith
  from ilog2_bounds [OF pos]
  have b: "2 powi (ilog2 x) \<le> x" "x < 2 powi (ilog2 x + 1)" by simp_all
  have "\<not> ilog2 x < e"
  proof
    assume "ilog2 x < e"
    then have "(2::rat) powi (ilog2 x + 1) \<le> 2 powi e"
      by (intro power_int_increasing) simp_all
    with b(2) assms(1) show False by simp
  qed
  moreover have "\<not> e < ilog2 x"
  proof
    assume "e < ilog2 x"
    then have "(2::rat) powi (e + 1) \<le> 2 powi (ilog2 x)"
      by (intro power_int_increasing) simp_all
    with b(1) assms(2) show False by simp
  qed
  ultimately show ?thesis by simp
qed


lemma rhe_of_int: "rhe (of_int n) = n"
  by (simp add: rhe_def)


lemma ilog2_scale:
  assumes "0 < x"
  shows "ilog2 (x * 2 powi k) = ilog2 x + k"
proof (rule ilog2_unique)
  have p: "(0::rat) < 2 powi k" by (simp add: zero_less_power_int)
  from ilog2_bounds [OF assms]
  have b: "2 powi (ilog2 x) \<le> x" "x < 2 powi (ilog2 x + 1)" by simp_all
  have "(2::rat) powi (ilog2 x + k) = 2 powi (ilog2 x) * 2 powi k"
    by (rule power_int_add) simp
  also have "\<dots> \<le> x * 2 powi k"
    using b(1) p by (simp add: mult_right_mono)
  finally show "2 powi (ilog2 x + k) \<le> x * 2 powi k" .
  have "x * 2 powi k < 2 powi (ilog2 x + 1) * 2 powi k"
    using b(2) p by (simp add: mult_strict_right_mono)
  also have "\<dots> = 2 powi ((ilog2 x + 1) + k)"
    by (rule power_int_add [symmetric]) simp
  also have "(ilog2 x + 1) + k = ilog2 x + k + 1" by simp
  finally show "x * 2 powi k < 2 powi (ilog2 x + k + 1)" .
qed

lemma fl_exact_pos:
  assumes "0 < m" and "m < 2 ^ 53"
  shows "fl (of_int m * 2 powi k) = of_int m * 2 powi k"
proof -
  define j where "j = ilog2 (of_int m)"
  have mpos: "(0::rat) < of_int m" using assms(1) by simp
  have p: "(0::rat) < 2 powi k" by (simp add: zero_less_power_int)
  from ilog2_bounds [OF mpos]
  have b: "2 powi j \<le> (of_int m :: rat)" by (simp add: j_def)
  have "(of_int m :: rat) < of_int (2 ^ 53)"
    using assms(2) by (simp only: of_int_less_iff)
  then have "(of_int m :: rat) < 2 powi 53" by simp
  with b have "(2::rat) powi j < 2 powi 53" by linarith
  then have j52: "j \<le> 52"
    using power_int_le_imp_less_exp [of "2::rat" j 53] by simp
  define t where "t = nat (52 - j)"
  have t: "int t = 52 - j" using j52 by (simp add: t_def)
  let ?x = "of_int m * (2::rat) powi k"
  have xpos: "0 < ?x" using mpos p by simp
  have E: "ilog2 \<bar>?x\<bar> - 52 = k - int t"
    using ilog2_scale [OF mpos, of k] xpos t by (simp add: j_def)
  have split: "(2::rat) powi k = 2 powi (k - int t) * 2 ^ t"
  proof -
    have "(2::rat) powi ((k - int t) + int t) = 2 powi (k - int t) * 2 powi (int t)"
      by (rule power_int_add) simp
    then show ?thesis by (simp add: power_int_of_nat)
  qed
  have q: "(0::rat) < 2 powi (k - int t)" by (simp add: zero_less_power_int)
  have "\<bar>?x\<bar> / 2 powi (k - int t) = of_int m * 2 ^ t"
    using xpos q by (simp add: split)
  also have "\<dots> = of_int (m * 2 ^ t)" by simp
  finally have quot: "\<bar>?x\<bar> / 2 powi (k - int t) = of_int (m * 2 ^ t)" .
  have ne: "?x \<noteq> 0" using xpos by linarith
  have "fl ?x = sgn ?x * of_int (rhe (\<bar>?x\<bar> / 2 powi (ilog2 \<bar>?x\<bar> - 52)))
                  * 2 powi (ilog2 \<bar>?x\<bar> - 52)"
    unfolding fl_def Let_def using ne by (simp only: if_False)
  also have "\<dots> = sgn ?x * of_int (rhe (\<bar>?x\<bar> / 2 powi (k - int t))) * 2 powi (k - int t)"
    by (simp only: E)
  also have "\<dots> = of_int (m * 2 ^ t) * 2 powi (k - int t)"
    using xpos by (simp only: quot rhe_of_int) (simp add: sgn_if)
  also have "\<dots> = ?x"
    by (simp add: split)
  finally show ?thesis .
qed



lemma fl_zero: "fl 0 = 0"
  by (simp add: fl_def)



lemma py_int_of_int: "py_int (of_int n) = n"
  by (simp add: py_int_def)

lemma py_truediv_2:
  assumes "n < 2 ^ 53"
  shows "py_truediv (int n) 2 = of_nat n / 2"
proof (cases "n = 0")
  case True
  then show ?thesis by (simp add: py_truediv_def fl_zero)
next
  case False
  then have "0 < int n" by simp
  moreover have "int n < 2 ^ 53" using assms by (simp add: of_nat_less_numeral_power_cancel_iff)
  ultimately have "fl (of_int (int n) * 2 powi (- 1)) = of_int (int n) * 2 powi (- 1)"
    by (rule fl_exact_pos)
  then show ?thesis by (simp add: py_truediv_def power_int_minus)
qed

lemma floor_half: "\<lfloor>(of_nat n :: rat) / 2\<rfloor> = int (n div 2)"
proof -
  have "\<lfloor>(of_int (int n) :: rat) / of_int 2\<rfloor> = int n div 2"
    by (rule floor_divide_of_int_eq)
  then show ?thesis by (simp add: zdiv_int)
qed

lemma str_len_of_eq:
  assumes "v < 2 ^ 53"
  shows "str_len_of v = v div 2"
  by (simp add: str_len_of_def py_truediv_2 [OF assms] py_int_def floor_half)




section \<open>The claims\<close>

subsection \<open>Header-length detection\<close>

text \<open>
  The test of the header-length loop as a predicate on the stream, and the condition
  under which running the test at \<open>n\<close> reads a word that does not exist: the test reads
  the words \<open>n\<close> and \<open>n + 8\<close>, then \<open>n + 16\<close>, then \<open>n + 24\<close>, each only when the
  comparisons before it held, and at last \<open>n + 1\<close> and \<open>n + 9\<close>.
\<close>

definition header_match :: "word16 list \<Rightarrow> nat \<Rightarrow> bool" where
  "header_match data n =
     (data ! n = data ! (n + 8) \<and> data ! (n + 8) = data ! (n + 16)
      \<and> data ! (n + 16) = data ! (n + 24) \<and> data ! (n + 1) = data ! (n + 9))"

definition past_end :: "word16 list \<Rightarrow> nat \<Rightarrow> bool" where
  "past_end data n =
     (length data \<le> n + 8
      \<or> (data ! n = data ! (n + 8)
          \<and> (length data \<le> n + 16
              \<or> (data ! (n + 8) = data ! (n + 16) \<and> length data \<le> n + 24))))"

lemma candidates_eq: "candidates = [29, 30, 31, 32, 33, 34, 35, 36, 37]"
  by (simp add: candidates_def upt_rec)

lemma header_test_eq:
  "header_test data n =
     (if past_end data n then Inl IndexError else Inr (header_match data n))"
  by (auto simp: header_test_def getw_def past_end_def header_match_def word_unat_eq_iff)

lemma header_loop_eq:
  "ns \<noteq> [] \<Longrightarrow>
     header_loop data ns =
       (case find (\<lambda>n. past_end data n \<or> header_match data n) ns of
          None \<Rightarrow> Inr (last ns)
        | Some n \<Rightarrow> if past_end data n then Inl IndexError else Inr n)"
proof (induction data ns rule: header_loop.induct)
  case (1 data)
  then show ?case by simp
next
  case (2 data n)
  show ?case by (simp add: header_test_eq)
next
  case (3 data n m ns)
  show ?case
  proof (cases "past_end data n \<or> header_match data n")
    case True
    then show ?thesis by (auto simp: header_test_eq)
  next
    case False
    then have t: "header_test data n = Inr False" by (simp add: header_test_eq)
    have "header_loop data (m # ns) =
            (case find (\<lambda>n. past_end data n \<or> header_match data n) (m # ns) of
               None \<Rightarrow> Inr (last (m # ns))
             | Some n \<Rightarrow> if past_end data n then Inl IndexError else Inr n)"
      by (rule "3.IH" [OF t]) simp_all
    with False t show ?thesis by (simp cong: option.case_cong)
  qed
qed

lemma detect_header_eq:
  "detect_header data =
     (case find (\<lambda>n. past_end data n \<or> header_match data n) candidates of
        None \<Rightarrow> Inr 37
      | Some n \<Rightarrow> if past_end data n then Inl IndexError else Inr n)"
proof -
  have "candidates \<noteq> []" "last candidates = 37" by (simp_all add: candidates_eq)
  with header_loop_eq [of candidates data] show ?thesis
    by (simp add: detect_header_def cong: option.case_cong)
qed

lemma detect_header_short:
  assumes "length data \<le> 37"
  shows "detect_header data = Inl IndexError"
proof -
  have "past_end data 29" using assms by (simp add: past_end_def)
  then show ?thesis by (simp add: detect_header_eq candidates_eq)
qed

lemma detect_header_long:
  assumes "62 \<le> length data"
  shows "detect_header data =
           Inr (case find (header_match data) candidates of Some m \<Rightarrow> m | None \<Rightarrow> 37)"
proof -
  have "\<not> past_end data n" if "n \<in> set candidates" for n
    using that assms by (auto simp: candidates_eq past_end_def)
  then have "find (\<lambda>n. past_end data n \<or> header_match data n) candidates
               = find (header_match data) candidates"
    by (intro find_cong) auto
  moreover have "\<not> past_end data n" if "find (header_match data) candidates = Some n" for n
    using that \<open>\<And>n. n \<in> set candidates \<Longrightarrow> \<not> past_end data n\<close>
    by (auto simp: find_Some_iff)
  ultimately show ?thesis
    by (auto simp: detect_header_eq split: option.splits)
qed

text \<open>
  Claim C3, as amended. Scanning the candidates 29, \<dots>, 37 in order, the first offset
  \<open>n\<close> with \<open>words[n] = words[n+8] = words[n+16] = words[n+24]\<close> and
  \<open>words[n+1] = words[n+9]\<close> is accepted. When no candidate passes the test, detection
  does not fail: \<open>n\<close> keeps the value of the last candidate, 37. The only failure is
  the IndexError of reading a word past the end: it is raised exactly when the first
  candidate whose test either passes or reads past the end is one that reads past the
  end. Every stream of at most 37 words fails in this way and no stream of 62 words or
  more does; there is no error for a header that was not found.
\<close>

theorem detect_header_result:
  "detect_header data =
     (case find (\<lambda>n. past_end data n \<or> header_match data n) candidates of
        None \<Rightarrow> Inr 37
      | Some n \<Rightarrow> if past_end data n then Inl IndexError else Inr n)
   \<and> (length data \<le> 37 \<longrightarrow> detect_header data = Inl IndexError)
   \<and> (62 \<le> length data \<longrightarrow>
        detect_header data =
          Inr (case find (header_match data) candidates of Some m \<Rightarrow> m | None \<Rightarrow> 37))"
  using detect_header_eq detect_header_short detect_header_long by blast

text \<open>A stream of 46 distinct words: no candidate passes the test, the stream is
  shorter than the 62 words the whole range can read, and detection returns 37.\<close>

definition distinct_words :: "word16 list" where
  "distinct_words = map word_of_nat [0..<46]"

lemma distinct_words_nth: "i < 46 \<Longrightarrow> unat (distinct_words ! i) = i"
  by (simp add: distinct_words_def unat_of_nat)

lemma distinct_words_length: "length distinct_words = 46"
  by (simp add: distinct_words_def)

theorem detect_header_no_match:
  "detect_header distinct_words = Inr 37
   \<and> find (header_match distinct_words) candidates = None
   \<and> length distinct_words < 62"
  by (simp add: detect_header_def candidates_eq header_test_def getw_def
      distinct_words_nth distinct_words_length header_match_def word_unat_eq_iff)

theorem detect_header_result_witness:
  "length (replicate 37 (0 :: word16)) \<le> 37
   \<and> detect_header (replicate 37 0) = Inl IndexError
   \<and> 62 \<le> length (replicate 62 (0 :: word16))
   \<and> detect_header (replicate 62 0) =
        Inr (case find (header_match (replicate 62 0)) candidates of Some m \<Rightarrow> m | None \<Rightarrow> 37)
   \<and> find (\<lambda>n. past_end distinct_words n \<or> header_match distinct_words n) candidates = None
   \<and> detect_header distinct_words = Inr 37"
proof -
  have a: "length (replicate 37 (0 :: word16)) \<le> 37" by simp
  have b: "62 \<le> length (replicate 62 (0 :: word16))" by simp
  have c: "find (\<lambda>n. past_end distinct_words n \<or> header_match distinct_words n) candidates
             = None"
    by (simp add: candidates_eq past_end_def header_match_def distinct_words_length
        word_unat_eq_iff distinct_words_nth)
  from detect_header_result [of "replicate 37 0", THEN conjunct2, THEN conjunct1] a
  have d: "detect_header (replicate 37 0) = Inl IndexError" by blast
  from detect_header_result [of "replicate 62 0", THEN conjunct2, THEN conjunct2] b
  have e: "detect_header (replicate 62 0) =
        Inr (case find (header_match (replicate 62 0)) candidates of Some m \<Rightarrow> m | None \<Rightarrow> 37)"
    by blast
  from detect_header_result [of distinct_words, THEN conjunct1] c
  have f: "detect_header distinct_words = Inr 37" by simp
  from a b c d e f show ?thesis by blast
qed


lemma getw_drop29:
  assumes "29 \<le> k"
  shows "getw d k = getw (drop 29 d) (k - 29)"
proof (cases "29 \<le> length d")
  case True
  with assms show ?thesis by (auto simp: getw_def)
next
  case False
  with assms show ?thesis by (simp add: getw_def)
qed

lemma header_test_cong:
  assumes "29 \<le> n" and "drop 29 d1 = drop 29 d2"
  shows "header_test d1 n = header_test d2 n"
proof -
  have g: "getw d1 k = getw d2 k" if "29 \<le> k" for k
    using getw_drop29 [OF that, of d1] getw_drop29 [OF that, of d2] assms(2) by simp
  have "getw d1 n = getw d2 n" "getw d1 (n + 8) = getw d2 (n + 8)"
    "getw d1 (n + 16) = getw d2 (n + 16)" "getw d1 (n + 24) = getw d2 (n + 24)"
    "getw d1 (n + 1) = getw d2 (n + 1)" "getw d1 (n + 9) = getw d2 (n + 9)"
    using assms(1) by (simp_all add: g)
  then show ?thesis
    unfolding header_test_def by (simp only:)
qed

lemma header_loop_cong:
  assumes "drop 29 d1 = drop 29 d2"
  shows "\<forall>n\<in>set ns. 29 \<le> n \<Longrightarrow> header_loop d1 ns = header_loop d2 ns"
proof (induction ns rule: induct_list012)
  case 1
  then show ?case by simp
next
  case (2 n)
  then show ?case using header_test_cong [OF _ assms, of n] by simp
next
  case (3 n m ns)
  then have t: "header_test d1 n = header_test d2 n"
    using header_test_cong [OF _ assms, of n] by simp
  have "header_loop d1 (m # ns) = header_loop d2 (m # ns)"
    using 3 by simp
  with t show ?case by (simp split: sum.splits)
qed

text \<open>
  Claim C7, as amended. Detection reads no word before index 29: two word streams that
  agree from index 29 on, whatever the first 29 words of each are, get the same result
  (the same offset or the same exception).
\<close>

theorem detect_header_depends_on_tail:
  assumes "drop 29 d1 = drop 29 d2"
  shows "detect_header d1 = detect_header d2"
  unfolding detect_header_def
  by (rule header_loop_cong [OF assms]) (simp add: candidates_eq)

text \<open>
  Two streams of 70 words with the same four timestamp records at words 37 to 68, which
  differ in the one preamble word 30: detection returns 37 for the first and 29 for the
  second.
\<close>

definition stream_A :: "word16 list" where
  "stream_A =
     [0, 0, 0, 0, 0, 0, 0, 0, 0, 0, 0, 0, 0, 0, 0, 0, 0, 0, 0, 0, 0, 0, 0, 0, 0, 0, 0, 0, 0,
      0, 6, 0, 848, 0, 10, 0, 982,
      0, 2019, 6, 5, 1, 10, 15, 30,
      0, 2019, 6, 5, 1, 10, 15, 30,
      0, 2019, 6, 5, 1, 10, 15, 30,
      0, 2019, 6, 5, 1, 10, 15, 30,
      0]"

definition stream_B :: "word16 list" where
  "stream_B = stream_A [30 := 2019]"

theorem detect_header_preamble_counterexample:
  "detect_header stream_A = Inr 37 \<and> detect_header stream_B = Inr 29
   \<and> length stream_A = length stream_B
   \<and> take 30 stream_A = take 30 stream_B \<and> drop 31 stream_A = drop 31 stream_B"
  by (simp add: detect_header_def candidates_eq header_test_def getw_def
      stream_A_def stream_B_def)

theorem detect_header_depends_on_tail_witness:
  "drop 29 (1 # stream_A) = drop 29 (2 # stream_A)
   \<and> detect_header (1 # stream_A) = detect_header (2 # stream_A)"
  using detect_header_depends_on_tail [of "1 # stream_A" "2 # stream_A"]
  by (simp add: stream_A_def)

subsection \<open>Timestamp records\<close>

text \<open>
  \<open>record_fields data m\<close> is the datetime whose fields are the words 1, 2, 4, 5, 6 and 7
  of the record at offset \<open>m\<close>; \<open>claimed_fields data m\<close> takes them from the words 0, 1,
  3, 4, 5 and 6, as the specification words it.
\<close>

definition record_fields :: "word16 list \<Rightarrow> nat \<Rightarrow> datetime" where
  "record_fields data m =
     \<lparr>year = unat (data ! (m + 1)), month = unat (data ! (m + 2)),
      day = unat (data ! (m + 4)), hour = unat (data ! (m + 5)),
      minute = unat (data ! (m + 6)), second = unat (data ! (m + 7)), microsecond = 0\<rparr>"

definition claimed_fields :: "word16 list \<Rightarrow> nat \<Rightarrow> datetime" where
  "claimed_fields data m =
     \<lparr>year = unat (data ! m), month = unat (data ! (m + 1)),
      day = unat (data ! (m + 3)), hour = unat (data ! (m + 4)),
      minute = unat (data ! (m + 5)), second = unat (data ! (m + 6)), microsecond = 0\<rparr>"

lemma datetime_new_Inr: "datetime_new y m d hh mm ss = Inr dt \<Longrightarrow>
    dt = \<lparr>year = y, month = m, day = d, hour = hh, minute = mm, second = ss, microsecond = 0\<rparr>"
  by (auto simp: datetime_new_def Let_def split: if_splits)

lemma getw_slice:
  "getw (slice data a b) i =
     (if a + i < length data \<and> i < b - a then Inr (unat (data ! (a + i))) else Inl IndexError)"
  by (auto simp: getw_def slice_def)

lemma readContTimestamp_slice:
  "readContTimestamp (slice data m e) = Inr dt \<Longrightarrow> dt = record_fields data m"
  unfolding readContTimestamp_def
  by (auto simp: getw_slice record_fields_def split: if_splits dest!: datetime_new_Inr)

text \<open>
  Claim C6, as amended. Each of the four consecutive timestamp records is 8 words; the
  decoder ignores the first word of a record (the padding the writer puts before each
  record) and takes year, month, flag (skipped), day, hour, minute and second in order
  from the remaining seven words, the second being the eighth word of the record.
\<close>

theorem timestamp_record_layout:
  assumes "file_metadata False data n = Inr (items, n')"
  shows "take 4 items =
           [Recorded (record_fields data n), RecordedUTC (record_fields data (n + 8)),
            LastModified (record_fields data (n + 16)),
            FileCreated (record_fields data (n + 24))]"
  using assms unfolding file_metadata_def Let_def
  by (simp only: not_False_eq_True if_True)
     (elim py_bind_InrE, auto dest!: readContTimestamp_slice)

text \<open>The record the writer produces for 2019-06-01 10:15:30, read by the decoder and by
  the layout of the specification.\<close>

definition record_words :: "word16 list" where
  "record_words = [0, 2019, 6, 5, 1, 10, 15, 30]"

definition four_records :: "word16 list" where
  "four_records = record_words @ record_words @ record_words @ record_words @ [0, 1, 2]"

definition four_records_items :: "out_item list" where
  "four_records_items =
     (let dt = \<lparr>year = 2019, month = 6, day = 1, hour = 10, minute = 15, second = 30,
                microsecond = 0\<rparr>
      in [Recorded dt, RecordedUTC dt, LastModified dt, FileCreated dt, FileSize 131073])"

theorem timestamp_first_word_counterexample:
  "readContTimestamp (slice record_words 0 8) =
     Inr \<lparr>year = 2019, month = 6, day = 1, hour = 10, minute = 15, second = 30,
          microsecond = 0\<rparr>
   \<and> claimed_fields record_words 0 =
     \<lparr>year = 0, month = 2019, day = 5, hour = 1, minute = 10, second = 15,
      microsecond = 0\<rparr>"
  by (simp add: readContTimestamp_def getw_def slice_def record_words_def
      datetime_new_def valid_datetime_def days_in_month_def claimed_fields_def)

theorem timestamp_record_layout_witness:
  "file_metadata False four_records 0 = Inr (four_records_items, 35)
   \<and> take 4 four_records_items =
     [Recorded (record_fields four_records 0), RecordedUTC (record_fields four_records (0 + 8)),
      LastModified (record_fields four_records (0 + 16)),
      FileCreated (record_fields four_records (0 + 24))]"
proof -
  have m: "file_metadata False four_records 0 = Inr (four_records_items, 35)"
    by (simp add: file_metadata_def readContTimestamp_def getw_def slice_def four_records_def
        record_words_def datetime_new_def valid_datetime_def days_in_month_def
        four_records_items_def Let_def)
  from timestamp_record_layout [OF m] m show ?thesis by blast
qed

subsection \<open>The cursor of the record scan\<close>

lemma find_zero_Inr:
  "find_zero data x = Inr z \<Longrightarrow>
     x \<le> z \<and> z < length data \<and> data ! z = 0 \<and> (\<forall>k. x \<le> k \<and> k < z \<longrightarrow> data ! k \<noteq> 0)"
proof (induction data x rule: find_zero.induct)
  case (1 data x)
  show ?case
  proof (cases "x < length data \<and> data ! x \<noteq> 0")
    case True
    then have "find_zero data (x + 1) = Inr z"
      using "1.prems" by (subst (asm) find_zero.simps) simp
    with True "1.IH" have ih: "x + 1 \<le> z" "z < length data" "data ! z = 0"
      "\<forall>k. x + 1 \<le> k \<and> k < z \<longrightarrow> data ! k \<noteq> 0"
      by blast+
    have "data ! k \<noteq> 0" if "x \<le> k" "k < z" for k
    proof (cases "k = x")
      case True
      then show ?thesis using \<open>x < length data \<and> data ! x \<noteq> 0\<close> by simp
    next
      case False
      with that ih(4) show ?thesis by simp
    qed
    with ih show ?thesis by simp
  next
    case False
    then show ?thesis
      using "1.prems" by (subst (asm) find_zero.simps) (auto split: if_splits)
  qed
qed

lemma unat16_lt: "unat (w :: word16) < 2 ^ 53"
proof -
  have "unat w < 2 ^ 16" using unsigned_less [of w] by simp
  then show ?thesis by simp
qed

lemma getw_Inr: "getw data i = Inr v \<Longrightarrow> i < length data \<and> v = unat (data ! i)"
  by (auto simp: getw_def split: if_splits)

lemma str_len_of_word: "str_len_of (unat (w :: word16)) = unat w div 2"
  by (rule str_len_of_eq) (rule unat16_lt)

lemma scan_body_22:
  assumes "scan_body u data i = Inr (items, i')" and "unat (data ! i) = 22"
  shows "\<exists>z. i + 2 \<le> z \<and> z < length data \<and> data ! z = 0
              \<and> (\<forall>k. i + 2 \<le> k \<and> k < z \<longrightarrow> data ! k \<noteq> 0) \<and> i' = z + 1"
proof -
  from assms(1) obtain el where el: "getw data i = Inr el"
    unfolding scan_body_def by (elim py_bind_InrE)
  with assms(2) have "el = 22" by (auto dest: getw_Inr)
  with assms(1) el obtain z where z: "find_zero data (i + 2) = Inr z" and "i' = z + 1"
    unfolding scan_body_def by (auto elim!: py_bind_InrE)
  with find_zero_Inr [OF z] show ?thesis by blast
qed

lemma scan_body_1:
  assumes "scan_body u data i = Inr (items, i')" and "unat (data ! i) = 1"
  shows "i' = (i + 17 + unat (data ! (i + 16)) div 2) + 1"
proof -
  from assms(1) obtain el where el: "getw data i = Inr el"
    unfolding scan_body_def by (elim py_bind_InrE)
  with assms(2) have "el = 1" by (auto dest: getw_Inr)
  with assms(1) el show ?thesis
    unfolding scan_body_def Let_def
    by (auto elim!: py_bind_InrE dest!: getw_Inr simp: str_len_of_word add.commute)
qed

lemma scan_body_2:
  assumes "scan_body u data i = Inr (items, i')" and "unat (data ! i) = 2"
  shows "i' = (i + 13 + unat (data ! (i + 12)) div 2) + 1"
proof -
  from assms(1) obtain el where el: "getw data i = Inr el"
    unfolding scan_body_def by (elim py_bind_InrE)
  with assms(2) have "el = 2" by (auto dest: getw_Inr)
  with assms(1) el show ?thesis
    unfolding scan_body_def Let_def
    by (auto elim!: py_bind_InrE dest!: getw_Inr simp: str_len_of_word add.commute)
qed

lemma scan_body_4:
  assumes "scan_body u data i = Inr (items, i')" and "unat (data ! i) = 4"
  shows "i' = (i + 7 + unat (data ! (i + 6)) div 2) + 1"
proof -
  from assms(1) obtain el where el: "getw data i = Inr el"
    unfolding scan_body_def by (elim py_bind_InrE)
  with assms(2) have "el = 4" by (auto dest: getw_Inr)
  with assms(1) el show ?thesis
    unfolding scan_body_def Let_def
    by (auto elim!: py_bind_InrE dest!: getw_Inr simp: str_len_of_word add.commute)
qed

lemma scan_body_other:
  assumes "scan_body u data i = Inr (items, i')" and "unat (data ! i) \<notin> {22, 1, 2, 4}"
  shows "i' = i + 1"
proof -
  from assms(1) obtain el where el: "getw data i = Inr el"
    unfolding scan_body_def by (elim py_bind_InrE)
  with assms(2) have "el \<noteq> 22" "el \<noteq> 1" "el \<noteq> 2" "el \<noteq> 4" by (auto dest: getw_Inr)
  with assms(1) el show ?thesis
    unfolding scan_body_def by simp
qed

text \<open>
  Claim C9, as amended. Whenever the body of the scan loop completes at cursor \<open>i\<close>, the
  new cursor is one word beyond the end that the branch of the record has computed,
  because the pointer update of every branch is followed by the \<^verbatim>\<open>i += 1\<close> of the loop.
  For tag 22 the branch ends at the terminating zero word \<open>z\<close>, the first zero at or after
  \<open>i + 2\<close>, and the cursor becomes \<open>z + 1\<close>, one word past that zero. For the tags 1, 2
  and 4 the branch ends at \<open>x + str_len\<close>, which is already one word past the last word
  of the slice \<^verbatim>\<open>data[x:x+str_len]\<close> that holds the file name, with \<open>x\<close> being \<open>i + 17\<close>,
  \<open>i + 13\<close> and \<open>i + 7\<close> and \<open>str_len\<close> half the length word \<open>data[x-1]\<close>; the cursor
  becomes \<open>x + str_len + 1\<close>, two words past the last word of the name. Any other tag
  moves the cursor by one.
\<close>

theorem scan_cursor_after_record:
  assumes "scan_body u data i = Inr (items, i')"
  shows "(unat (data ! i) = 22 \<longrightarrow>
            (\<exists>z. i + 2 \<le> z \<and> z < length data \<and> data ! z = 0
                 \<and> (\<forall>k. i + 2 \<le> k \<and> k < z \<longrightarrow> data ! k \<noteq> 0) \<and> i' = z + 1))
       \<and> (unat (data ! i) = 1 \<longrightarrow> i' = (i + 17 + unat (data ! (i + 16)) div 2) + 1)
       \<and> (unat (data ! i) = 2 \<longrightarrow> i' = (i + 13 + unat (data ! (i + 12)) div 2) + 1)
       \<and> (unat (data ! i) = 4 \<longrightarrow> i' = (i + 7 + unat (data ! (i + 6)) div 2) + 1)
       \<and> (unat (data ! i) \<notin> {22, 1, 2, 4} \<longrightarrow> i' = i + 1)"
  using scan_body_22 [OF assms] scan_body_1 [OF assms] scan_body_2 [OF assms]
    scan_body_4 [OF assms] scan_body_other [OF assms]
  by blast

definition video_record :: "word16 list" where
  "video_record = [1, 0, 0x0306, 0, 0, 0, 0, 0, 54321, 0, 0, 0, 0, 0, 0, 0, 4, 0, 65]"

lemma filetimeToTimestamp_zero: "filetimeToTimestamp [0, 0, 0, 0] = Inr 0"
  by (simp add: filetimeToTimestamp_def filetime_of_words_def getw_def py_truediv_def fl_zero
      rhe_def add_to_1601_def ordinal_jan1_def days_before_year_def MAXORDINAL_def)

theorem scan_cursor_after_record_witness:
  "scan_body False video_record 0 =
     Inr ([VideoFile, VideoSize 54321, CreationDate 0, FileName [65]], 20)
   \<and> unat (video_record ! 0) = 1
   \<and> 20 = (0 + 17 + unat (video_record ! (0 + 16)) div 2) + 1"
proof -
  have b: "scan_body False video_record 0 =
             Inr ([VideoFile, VideoSize 54321, CreationDate 0, FileName [65]], 20)"
    by (simp add: scan_body_def getw_def slice_def video_record_def filetimeToTimestamp_zero
        str_len_of_eq file_lines_def extractChars_def py_print_def)
  have t: "unat (video_record ! 0) = 1" by (simp add: video_record_def)
  from scan_cursor_after_record [OF b] t b show ?thesis by simp
qed

text \<open>
  A video record of 19 words whose file name slice is \<^verbatim>\<open>data[17:19]\<close>: the last word of
  the name is word 18, one word past it is 19, and the cursor becomes 20.
\<close>

theorem scan_cursor_past_name_counterexample:
  "scan_body False video_record 0 =
     Inr ([VideoFile, VideoSize 54321, CreationDate 0, FileName [65]], 20)
   \<and> str_len_of (unat (video_record ! 16)) = 2
   \<and> slice video_record 17 (17 + 2) = [0, 65]
   \<and> video_record ! 18 = 65 \<and> length video_record = 19
   \<and> (18 :: nat) + 1 \<noteq> 20"
  by (simp add: scan_body_def getw_def slice_def video_record_def filetimeToTimestamp_zero
      str_len_of_eq file_lines_def extractChars_def py_print_def)

subsection \<open>An example input\<close>




subsection \<open>The assembly loop\<close>

lemma py_bind_Inr_right [simp]: "py_bind m (\<lambda>x. Inr x) = m"
  by (cases m) simp_all










subsection \<open>Inputs with the same parameters\<close>






subsection \<open>FILETIME\<close>

text \<open>Floats with at most 53 significant bits, whatever their sign, are their own
  rounding; rounding a quotient of integers to the nearest integer is integer
  arithmetic; and the bytes that \<^verbatim>\<open>struct.pack\<close> writes for an integer are the 16-bit
  words the decoder reads, low word first.\<close>

lemma fl_minus: "fl (- x) = - fl x"
  by (simp add: fl_def Let_def)

lemma fl_exact:
  assumes "\<bar>m\<bar> < 2 ^ 53"
  shows "fl (of_int m * 2 powi k) = of_int m * 2 powi k"
proof -
  consider "m = 0" | "0 < m" | "m < 0" by linarith
  then show ?thesis
  proof cases
    case 1
    then show ?thesis by (simp add: fl_zero)
  next
    case 2
    with assms show ?thesis by (intro fl_exact_pos) simp_all
  next
    case 3
    with assms have "fl (of_int (- m) * 2 powi k) = of_int (- m) * 2 powi k"
      by (intro fl_exact_pos) simp_all
    then have "fl (- (of_int m * 2 powi k)) = - (of_int m * 2 powi k)" by simp
    then show ?thesis by (simp only: fl_minus neg_equal_iff_equal)
  qed
qed

lemma rhe_div:
  assumes "0 < q"
  shows "rhe (of_int p / of_int q) =
           (if 2 * (p mod q) < q then p div q
            else if q < 2 * (p mod q) then p div q + 1
            else if even (p div q) then p div q else p div q + 1)"
proof -
  have fl: "\<lfloor>(of_int p :: rat) / of_int q\<rfloor> = p div q"
    by (rule floor_divide_of_int_eq)
  have qr: "(0::rat) < of_int q" using assms by simp
  have "(of_int p :: rat) = of_int (q * (p div q) + p mod q)" by simp
  also have "\<dots> = of_int q * of_int (p div q) + of_int (p mod q)"
    by (simp only: of_int_add of_int_mult)
  finally have "(of_int p :: rat) / of_int q
                  = (of_int q * of_int (p div q) + of_int (p mod q)) / of_int q"
    by (simp only:)
  also have "\<dots> = of_int (p div q) + of_int (p mod q) / of_int q"
    using qr by (simp add: add_divide_distrib)
  finally have "(of_int p :: rat) / of_int q = of_int (p div q) + of_int (p mod q) / of_int q" .
  then have d: "(of_int p :: rat) / of_int q - of_int (p div q) = of_int (p mod q) / of_int q"
    by simp
  have lt: "(of_int (p mod q) / of_int q < (1::rat) / 2) = (2 * (p mod q) < q)"
  proof -
    have "(of_int (p mod q) / of_int q < (1::rat) / 2) = ((of_int (2 * (p mod q)) :: rat) < of_int q)"
      using qr by (simp add: field_simps)
    then show ?thesis by (simp only: of_int_less_iff)
  qed
  have gt: "((1::rat) / 2 < of_int (p mod q) / of_int q) = (q < 2 * (p mod q))"
  proof -
    have "((1::rat) / 2 < of_int (p mod q) / of_int q) = ((of_int q :: rat) < of_int (2 * (p mod q)))"
      using qr by (simp add: field_simps)
    then show ?thesis by (simp only: of_int_less_iff)
  qed
  show ?thesis
    unfolding rhe_def Let_def fl d lt gt by simp
qed

lemma unat_byte_of_int: "unat (word_of_int x :: byte) = nat (x mod 256)"
  by (simp add: unsigned_of_int take_bit_eq_mod)

lemma unat_word16_of_int: "unat (word_of_int x :: word16) = nat (x mod 65536)"
  by (simp add: unsigned_of_int take_bit_eq_mod)

lemma word16_of_bytes:
  "(word_of_nat (unat (word_of_int c :: byte) + 256 * unat (word_of_int (c div 256) :: byte))
      :: word16) = word_of_int c"
proof -
  have "c mod (256 * 256) = 256 * (c div 256 mod 256) + c mod 256"
    by (rule zmod_zmult2_eq) simp
  then have m: "c mod 256 + 256 * (c div 256 mod 256) = c mod 65536" by simp
  have "int (nat (c mod 256) + 256 * nat (c div 256 mod 256))
          = c mod 256 + 256 * (c div 256 mod 256)"
    by simp
  with m have "int (nat (c mod 256) + 256 * nat (c div 256 mod 256)) = c mod 65536"
    by (simp only:)
  then have "(word_of_nat (nat (c mod 256) + 256 * nat (c div 256 mod 256)) :: word16)
               = word_of_int (c mod 65536)"
    by (metis of_int_of_nat_eq)
  also have "\<dots> = word_of_int c"
    by (simp add: word_eq_iff_unsigned [where ?'a = int] uint_word_of_int take_bit_eq_mod)
  finally show ?thesis by (simp only: unat_byte_of_int)
qed



lemma le_bytes_8:
  "le_bytes 8 c =
     [word_of_int c, word_of_int (c div 256),
      word_of_int (c div 65536), word_of_int (c div 65536 div 256),
      word_of_int (c div 65536 div 65536), word_of_int (c div 65536 div 65536 div 256),
      word_of_int (c div 65536 div 65536 div 65536),
      word_of_int (c div 65536 div 65536 div 65536 div 256)]"
proof -
  have e3: "c div (65536 * 256) = c div 65536 div 256" by (rule zdiv_zmult2_eq) simp
  have e4: "c div (65536 * 65536) = c div 65536 div 65536" by (rule zdiv_zmult2_eq) simp
  have e5: "c div (65536 * 65536 * 256) = c div (65536 * 65536) div 256"
    by (rule zdiv_zmult2_eq) simp
  have e6: "c div (65536 * 65536 * 65536) = c div (65536 * 65536) div 65536"
    by (rule zdiv_zmult2_eq) simp
  have e7: "c div (65536 * 65536 * 65536 * 256) = c div (65536 * 65536 * 65536) div 256"
    by (rule zdiv_zmult2_eq) simp
  have "le_bytes 8 c =
     [word_of_int c, word_of_int (c div 256),
      word_of_int (c div 65536), word_of_int (c div (65536 * 256)),
      word_of_int (c div (65536 * 65536)), word_of_int (c div (65536 * 65536 * 256)),
      word_of_int (c div (65536 * 65536 * 65536)),
      word_of_int (c div (65536 * 65536 * 65536 * 256))]"
    by (simp add: le_bytes_def upt_rec)
  then show ?thesis by (simp only: e7 e6 e5 e4 e3)
qed



lemma words_le_le_bytes_8:
  "words_le (le_bytes 8 c @ rest) =
     word_of_int c # word_of_int (c div 65536) # word_of_int (c div 65536 div 65536)
       # word_of_int (c div 65536 div 65536 div 65536) # words_le rest"
  by (simp only: le_bytes_8 append.simps words_le.simps word16_of_bytes)

lemma four_digits:
  assumes "0 \<le> (c::int)" and "c < 2 ^ 64"
  shows "(c div 65536 div 65536 div 65536 mod 65536) * 2 ^ 48
         + (c div 65536 div 65536 mod 65536) * 2 ^ 32
         + (c div 65536 mod 65536) * 2 ^ 16 + c mod 65536 = c"
proof -
  define q1 where "q1 = c div 65536"
  define q2 where "q2 = q1 div 65536"
  define q3 where "q3 = q2 div 65536"
  have c: "c = 65536 * q1 + c mod 65536" by (simp add: q1_def)
  have q1: "q1 = 65536 * q2 + q1 mod 65536" by (simp add: q2_def)
  have q2: "q2 = 65536 * q3 + q2 mod 65536" by (simp add: q3_def)
  have "q1 < 2 ^ 48" using assms(2) unfolding q1_def by (simp add: div_less_iff_less_mult)
  then have "q2 < 2 ^ 32" unfolding q2_def by simp
  then have "q3 < 65536" unfolding q3_def by simp
  moreover have "0 \<le> q3" using assms(1) unfolding q3_def q2_def q1_def by simp
  ultimately have q3: "q3 mod 65536 = q3" by simp
  have "q3 mod 65536 * 2 ^ 48 + q2 mod 65536 * 2 ^ 32 + q1 mod 65536 * 2 ^ 16 + c mod 65536 = c"
    using c q1 q2 q3 by simp
  then show ?thesis by (simp only: q1_def q2_def q3_def)
qed

lemma filetime_of_words_pack:
  assumes "0 \<le> c" and "c < 2 ^ 64"
  shows "filetime_of_words (words_le (le_bytes 8 c)) = Inr (nat c)"
proof -
  have w: "words_le (le_bytes 8 c) =
             [word_of_int c, word_of_int (c div 65536), word_of_int (c div 65536 div 65536),
              word_of_int (c div 65536 div 65536 div 65536)]"
    using words_le_le_bytes_8 [of c "[]"] by simp
  have nn: "0 \<le> c div 65536 div 65536 div 65536 mod 65536" "0 \<le> c div 65536 div 65536 mod 65536"
    "0 \<le> c div 65536 mod 65536" "0 \<le> c mod 65536"
    by simp_all
  have "int (nat (c div 65536 div 65536 div 65536 mod 65536) * 2 ^ 48
         + nat (c div 65536 div 65536 mod 65536) * 2 ^ 32
         + nat (c div 65536 mod 65536) * 2 ^ 16 + nat (c mod 65536)) = c"
    using four_digits [OF assms] nn by simp
  then have "nat (c div 65536 div 65536 div 65536 mod 65536) * 2 ^ 48
         + nat (c div 65536 div 65536 mod 65536) * 2 ^ 32
         + nat (c div 65536 mod 65536) * 2 ^ 16 + nat (c mod 65536) = nat c"
    by (metis nat_int)
  moreover
  let ?W = "[word_of_int c, word_of_int (c div 65536), word_of_int (c div 65536 div 65536),
             word_of_int (c div 65536 div 65536 div 65536)] :: word16 list"
  have "getw ?W 3 = Inr (nat (c div 65536 div 65536 div 65536 mod 65536))"
    "getw ?W 2 = Inr (nat (c div 65536 div 65536 mod 65536))"
    "getw ?W 1 = Inr (nat (c div 65536 mod 65536))"
    "getw ?W 0 = Inr (nat (c mod 65536))"
    by (simp_all add: getw_def unat_word16_of_int)
  ultimately show ?thesis
    unfolding w filetime_of_words_def by (simp only: py_bind_Inr)
qed

text \<open>
  A timestamp at second granularity is a Unix time \<open>t\<close>, a whole number of seconds
  since 1970-01-01T00:00:00; as the datetime that \<^verbatim>\<open>filetimeToTimestamp\<close> returns it is
  \<open>timestamp_us t\<close> microseconds after 1601-01-01T00:00:00.
\<close>

definition seconds_1601_to_1970 :: nat where
  "seconds_1601_to_1970 = 86400 * (ordinal_jan1 1970 - ordinal_jan1 1601)"

definition timestamp_us :: "int \<Rightarrow> nat" where
  "timestamp_us t = nat ((int seconds_1601_to_1970 + t) * 1000000)"

lemma seconds_1601_to_1970_eq: "seconds_1601_to_1970 = 11644473600"
  by (simp add: seconds_1601_to_1970_def ordinal_jan1_def days_before_year_def)

lemma makeWindowsFiletime_seconds:
  assumes "\<bar>t\<bar> \<le> 115292150460"
  shows "makeWindowsFiletime (of_int t) = 116444736000000000 + t * 10000000"
proof -
  have "\<bar>t * 78125\<bar> < 2 ^ 53" using assms by (simp add: abs_mult)
  then have "fl (of_int (t * 78125) * 2 powi 7) = of_int (t * 78125) * 2 powi 7"
    by (rule fl_exact)
  moreover have "(of_int (t * 78125) :: rat) * 2 powi 7 = of_int t * 10000000" by simp
  ultimately have "fl (of_int t * 10000000) = of_int (t * 10000000)"
    by (simp add: mult.commute)
  then show ?thesis
    by (simp only: makeWindowsFiletime_def Let_def py_int_of_int)
qed

lemma filetime_decode_exact:
  assumes "0 \<le> s" and "s \<le> 576460752303"
  shows "filetimeToTimestamp (words_le (le_bytes 8 (s * 10000000))) =
           add_to_1601 (nat (s * 1000000))"
proof -
  have r: "0 \<le> s * 10000000" "s * 10000000 < 2 ^ 64" using assms by simp_all
  have "\<bar>s * 15625\<bar> < 2 ^ 53" using assms by simp
  then have "fl (of_int (s * 15625) * 2 powi 6) = of_int (s * 15625) * 2 powi 6"
    by (rule fl_exact)
  moreover have "(of_int (s * 15625) :: rat) * 2 powi 6 = of_int (s * 1000000)" by simp
  moreover have "(of_int (s * 10000000) :: rat) / of_int 10 = of_int (s * 1000000)" by simp
  ultimately have "py_truediv (s * 10000000) 10 = of_int (s * 1000000)"
    by (simp only: py_truediv_def)
  moreover have "int (nat (s * 10000000)) = s * 10000000" using r(1) by simp
  ultimately show ?thesis
    by (simp only: filetimeToTimestamp_def filetime_of_words_pack [OF r] py_bind_Inr Let_def
        rhe_of_int)
qed

lemma fl_eval:
  assumes "2 powi e \<le> x" and "x < 2 powi (e + 1)"
  shows "fl x = of_int (rhe (x / 2 powi (e - 52))) * 2 powi (e - 52)"
proof -
  have "(0::rat) < 2 powi e" by (simp add: zero_less_power_int)
  with assms(1) have pos: "0 < x" by linarith
  then have ne: "x \<noteq> 0" and ab: "\<bar>x\<bar> = x" and sg: "sgn x = 1" by simp_all
  have e: "ilog2 x = e" using assms by (rule ilog2_unique)
  have "fl x = sgn x * of_int (rhe (\<bar>x\<bar> / 2 powi (ilog2 \<bar>x\<bar> - 52)))
                 * 2 powi (ilog2 \<bar>x\<bar> - 52)"
    unfolding fl_def Let_def using ne by (simp only: if_False)
  then show ?thesis by (simp only: ab sg e mult_1)
qed

lemma rhe_numeral_div:
  "rhe (numeral a / numeral b) =
     (if 2 * (numeral a mod numeral b) < (numeral b :: int) then numeral a div numeral b
      else if (numeral b :: int) < 2 * (numeral a mod numeral b) then numeral a div numeral b + 1
      else if even (numeral a div numeral b :: int) then numeral a div numeral b
      else numeral a div numeral b + 1)"
  using rhe_div [of "numeral b" "numeral a"] by simp

lemma filetimeToTimestamp_pack:
  assumes "0 \<le> c" and "c < 2 ^ 64"
  shows "filetimeToTimestamp (words_le (le_bytes 8 c)) =
           add_to_1601 (nat (rhe (fl (of_int c / 10))))"
proof -
  have "int (nat c) = c" using assms(1) by simp
  then have "py_truediv (int (nat c)) 10 = fl (of_int c / 10)"
    by (simp only: py_truediv_def) simp
  then show ?thesis
    by (simp only: filetimeToTimestamp_def filetime_of_words_pack [OF assms] py_bind_Inr
        Let_def)
qed

lemma fl_year_5623: "fl 1152921504610000000 = 1152921504609999872"
proof -
  have "fl 1152921504610000000 =
          of_int (rhe (1152921504610000000 / 2 powi (60 - 52))) * 2 powi (60 - 52)"
    by (rule fl_eval) simp_all
  then show ?thesis by (simp add: rhe_numeral_div)
qed

lemma fl_year_5623_us: "fl (1269366240609999872 / 10) = 126936624060999984"
proof -
  have "fl (1269366240609999872 / 10) =
          of_int (rhe (1269366240609999872 / 10 / 2 powi (56 - 52))) * 2 powi (56 - 52)"
    by (rule fl_eval) simp_all
  then show ?thesis by (simp add: rhe_numeral_div)
qed

lemma fl_odd_us: "fl (90071992547409930 / 10) = 9007199254740992"
proof -
  have "fl (90071992547409930 / 10) =
          of_int (rhe (90071992547409930 / 10 / 2 powi (53 - 52))) * 2 powi (53 - 52)"
    by (rule fl_eval) simp_all
  then show ?thesis by (simp add: rhe_numeral_div)
qed

lemma add_to_1601_small: "us < 265046774400000000 \<Longrightarrow> add_to_1601 us = Inr us"
proof -
  assume "us < 265046774400000000"
  then have "us < 3067671 * 86400000000" by simp
  then have "us div 86400000000 < 3067671" by (simp add: less_mult_imp_div_less)
  then show ?thesis
    by (simp add: add_to_1601_def ordinal_jan1_def days_before_year_def MAXORDINAL_def
        us_per_day_def)
qed

text \<open>
  Claim C4, as amended. For every timestamp \<open>t\<close> at second granularity from 1601-01-01
  up to the Unix time 115292150460 (in the year 5623), writing the FILETIME of \<open>t\<close> as
  eight little-endian bytes and converting the four 16-bit words back gives \<open>t\<close> again,
  and the FILETIME of the Unix epoch is 116444736000000000. The conversion is done in
  double-precision floating point (\<^verbatim>\<open>unix_time*10000000\<close> and \<^verbatim>\<open>filetime/10\<close>); it is exact
  on this range, not beyond it and not for every FILETIME.
\<close>

theorem filetime_roundtrip:
  assumes "- 11644473600 \<le> t" and "t \<le> 115292150460"
  shows "filetimeToTimestamp (words_le (le_bytes 8 (makeWindowsFiletime (of_int t))))
           = Inr (timestamp_us t)
         \<and> makeWindowsFiletime 0 = 116444736000000000"
proof -
  have a: "\<bar>t\<bar> \<le> 115292150460" using assms by simp
  define s where "s = 11644473600 + t"
  have s: "0 \<le> s" "s \<le> 576460752303" using assms by (simp_all add: s_def)
  have F: "makeWindowsFiletime (of_int t) = s * 10000000"
    using makeWindowsFiletime_seconds [OF a] by (simp add: s_def)
  have "s * 1000000 < 265046774400000000" using assms by (simp add: s_def)
  then have "nat (s * 1000000) < 3067671 * 86400000000" using s(1) by simp
  then have "nat (s * 1000000) div 86400000000 < 3067671"
    by (simp add: less_mult_imp_div_less)
  then have ok: "add_to_1601 (nat (s * 1000000)) = Inr (nat (s * 1000000))"
    by (simp add: add_to_1601_def ordinal_jan1_def days_before_year_def MAXORDINAL_def
        us_per_day_def)
  have "filetimeToTimestamp (words_le (le_bytes 8 (makeWindowsFiletime (of_int t))))
          = Inr (nat (s * 1000000))"
    using filetime_decode_exact [OF s] ok by (simp only: F)
  moreover have "timestamp_us t = nat (s * 1000000)"
    by (simp add: timestamp_us_def seconds_1601_to_1970_eq s_def)
  moreover have "makeWindowsFiletime 0 = 116444736000000000"
    using makeWindowsFiletime_seconds [of 0] by simp
  ultimately show ?thesis by simp
qed

theorem filetime_roundtrip_witness:
  "- 11644473600 \<le> (1559384130 :: int) \<and> (1559384130 :: int) \<le> 115292150460
   \<and> filetimeToTimestamp (words_le (le_bytes 8 (makeWindowsFiletime 1559384130)))
       = Inr (timestamp_us 1559384130)
   \<and> makeWindowsFiletime 0 = 116444736000000000"
  using filetime_roundtrip [of 1559384130] by simp

text \<open>
  The second-granularity timestamp 115292150461 comes back 16 microseconds early. The
  FILETIME 90071992547409930, a whole number of microseconds, is converted to the same
  datetime as the FILETIME 90071992547409920, one microsecond before it.
\<close>

theorem filetime_not_exact_counterexample:
  "filetimeToTimestamp (words_le (le_bytes 8 (makeWindowsFiletime 115292150461)))
     = Inr 126936624060999984
   \<and> timestamp_us 115292150461 = 126936624061000000
   \<and> filetimeToTimestamp (words_le (le_bytes 8 90071992547409930)) = Inr 9007199254740992
   \<and> filetimeToTimestamp (words_le (le_bytes 8 90071992547409920)) = Inr 9007199254740992"
proof -
  have m: "makeWindowsFiletime 115292150461 = 1269366240609999872"
    by (simp add: makeWindowsFiletime_def fl_year_5623 py_int_def)
  have a: "filetimeToTimestamp (words_le (le_bytes 8 1269366240609999872))
             = Inr 126936624060999984"
    by (subst filetimeToTimestamp_pack) (simp_all add: fl_year_5623_us [simplified] rhe_of_int [of 126936624060999984, simplified] add_to_1601_small)
  have b: "filetimeToTimestamp (words_le (le_bytes 8 90071992547409930)) = Inr 9007199254740992"
    by (subst filetimeToTimestamp_pack) (simp_all add: fl_odd_us [simplified] rhe_of_int [of 9007199254740992, simplified] add_to_1601_small)
  have "fl (of_int 1 * 2 powi 53) = of_int 1 * 2 powi 53" by (rule fl_exact) simp
  then have e: "fl (90071992547409920 / 10) = 9007199254740992" by simp
  have c: "filetimeToTimestamp (words_le (le_bytes 8 90071992547409920)) = Inr 9007199254740992"
    by (subst filetimeToTimestamp_pack) (simp_all add: e [simplified] rhe_of_int [of 9007199254740992, simplified] add_to_1601_small)
  have t: "timestamp_us 115292150461 = 126936624061000000"
    by (simp add: timestamp_us_def seconds_1601_to_1970_eq)
  show ?thesis using m a b c t by simp
qed

subsection \<open>Loading a file of odd length\<close>













subsection \<open>The bytes of the CONT file\<close>

text \<open>
  What an element adds to the buffer when all its values fit the format, and with it
  the bytes of the whole file, first as bytes and then as the 16-bit words that
  \<^verbatim>\<open>array('H')\<close> makes of them.
\<close>

definition nul_bytes :: "nat option \<Rightarrow> byte list" where
  "nul_bytes pre = (case pre of None \<Rightarrow> [] | Some k \<Rightarrow> replicate k 0)"

definition pack_bytes :: "pack_fmt \<Rightarrow> int list \<Rightarrow> byte list" where
  "pack_bytes f cs = concat (map (le_bytes (fmt_size f)) cs)"

lemma pack_each_ok:
  "\<forall>c\<in>set cs. 0 \<le> c \<and> c < 256 ^ fmt_size f \<Longrightarrow>
     pack_each (Some f) cs d = Inr (d @ pack_bytes f cs)"
proof (induction cs arbitrary: d)
  case Nil
  then show ?case by (simp add: pack_bytes_def)
next
  case (Cons c cs)
  then show ?case by (simp add: struct_pack_def pack_bytes_def)
qed

lemma add_element_raw_el:
  "add_element d (raw_el bs pre) = Inr (d @ nul_bytes pre @ bs)"
  by (cases pre) (simp_all add: add_element_def raw_el_def nul_bytes_def)

lemma add_element_int:
  assumes "0 \<le> c" and "c < 256 ^ fmt_size f"
  shows "add_element d (packed_el (PyInt c) f pre None) =
           Inr (d @ nul_bytes pre @ le_bytes (fmt_size f) c)"
proof -
  have "pack_each (Some f) [c] d' = Inr (d' @ le_bytes (fmt_size f) c)" for d'
    using pack_each_ok [of "[c]" f d'] assms by (simp add: pack_bytes_def)
  then show ?thesis
    by (cases pre) (simp_all add: add_element_def packed_el_def nul_bytes_def Let_def)
qed

lemma add_element_list:
  assumes "\<forall>c\<in>set cs. 0 \<le> c \<and> c < 256 ^ fmt_size f"
  shows "add_element d (packed_el (PyList cs) f pre None) =
           Inr (d @ nul_bytes pre @ pack_bytes f cs)"
  using pack_each_ok [OF assms]
  by (cases pre) (simp_all add: add_element_def packed_el_def nul_bytes_def Let_def)

lemma length_pack_bytes: "length (pack_bytes f cs) = fmt_size f * length cs"
  by (induction cs) (simp_all add: pack_bytes_def le_bytes_def)

lemma add_element_str:
  assumes "\<forall>c\<in>set cs. c < 256 ^ fmt_size f"
  shows "add_element d (packed_el (PyStr cs) f pre len) =
           Inr (d @ nul_bytes pre @ pack_bytes f (map int cs)
                  @ (case len of None \<Rightarrow> []
                     | Some l \<Rightarrow> replicate (l - (length (nul_bytes pre)
                                                  + fmt_size f * length cs)) 0))"
proof -
  have r: "\<forall>c\<in>set (map int cs). 0 \<le> c \<and> c < 256 ^ fmt_size f"
  proof
    fix c assume "c \<in> set (map int cs)"
    then obtain n where n: "n \<in> set cs" "c = int n" by auto
    with assms have "n < 256 ^ fmt_size f" by simp
    then have "int n < int (256 ^ fmt_size f)" by (simp only: of_nat_less_iff)
    with n show "0 \<le> c \<and> c < 256 ^ fmt_size f" by simp
  qed
  show ?thesis
    using pack_each_ok [OF r]
    by (cases pre; cases len)
       (simp_all add: add_element_def packed_el_def nul_bytes_def Let_def length_pack_bytes)
qed




































































subsection \<open>Reading back the written file\<close>



lemma getw_append:
  "getw (xs @ ys) k = (if k < length xs then getw xs k else getw ys (k - length xs))"
  by (auto simp: getw_def nth_append)

definition timestamp_values :: "datetime \<Rightarrow> nat list" where
  "timestamp_values dt = [0, year dt, month dt, 5, day dt, hour dt, minute dt, second dt]"

definition lo_word :: "int \<Rightarrow> nat" where
  "lo_word c = nat (c mod 65536)"

definition hi_word :: "int \<Rightarrow> nat" where
  "hi_word c = nat (c div 65536 mod 65536)"

definition head_values :: "cont_input \<Rightarrow> nat list" where
  "head_values inp =
     [80, 95, 67, 111, 110, 116, 95, 17162, 28271, 2676,
      10, 0, 4096, 1, 0, 256, 5, 0, 1, 0, 76, 0, 2, 0, 740, 0, 5, 0, 766, 0, 6, 0, 848, 0,
      10, 0, 982]
     @ timestamp_values (record_dt (par inp)) @ timestamp_values (record_dt_utc (par inp))
     @ timestamp_values (file_modified (par inp)) @ timestamp_values (file_created (par inp))
     @ [0, lo_word (file_size (par inp)), hi_word (file_size (par inp)),
        0, 0, 4224, 19064, 0, 0, 0, 0, 0, 0, 26570, 240, 1, 256, 32,
        0, 0, 0, 1920, 0, 1080, 0, 16, 0, 9, 0, 25, 0, 1, 0, 128,
        nat (audio_stream (par inp)), 1, 0,
        lo_word (audio_bitrate (par inp)), hi_word (audio_bitrate (par inp)),
        nat (audio_bitdepth (par inp)), nat (audio_channels (par inp)),
        nat (audio_frequency (par inp)), 0, 4, 8448]"





lemma length_head_values: "length (head_values inp) = 114"
  by (simp add: head_values_def timestamp_values_def)

























lemma getw_shift: "getw (P @ X) (length P + k) = getw X k"
  by (simp add: getw_def nth_append)

lemma slice_shift: "slice (P @ X) (length P + a) (length P + b) = slice X a b"
  by (simp add: slice_def)

lemma find_zero_shift:
  "find_zero (P @ X) (length P + k) = py_bind (find_zero X k) (\<lambda>z. Inr (length P + z))"
proof (induction X k rule: find_zero.induct)
  case (1 data x)
  show ?case
  proof (cases "x < length data \<and> data ! x \<noteq> 0")
    case True
    then have "find_zero (P @ data) (length P + x) = find_zero (P @ data) (length P + (x + 1))"
      by (subst find_zero.simps) (simp add: nth_append)
    moreover have "find_zero data x = find_zero data (x + 1)"
      using True by (subst find_zero.simps) simp
    ultimately show ?thesis using "1.IH" True by simp
  next
    case False
    then show ?thesis
      by (subst find_zero.simps, subst (2) find_zero.simps) (auto simp: nth_append)
  qed
qed

lemma py_bind_assoc: "py_bind (py_bind m f) g = py_bind m (\<lambda>v. py_bind (f v) g)"
  by (cases m) simp_all

lemma py_bind_if: "py_bind (if c then a else b) g = (if c then py_bind a g else py_bind b g)"
  by simp

lemma getw_shift_le: "length P \<le> k \<Longrightarrow> getw (P @ X) k = getw X (k - length P)"
  by (simp add: getw_def nth_append) auto

lemma slice_shift_le:
  "length P \<le> a \<Longrightarrow> slice (P @ X) a b = slice X (a - length P) (b - length P)"
  by (simp add: slice_def)

lemma find_zero_shift_le:
  "length P \<le> k \<Longrightarrow>
     find_zero (P @ X) k = py_bind (find_zero X (k - length P)) (\<lambda>z. Inr (length P + z))"
  using find_zero_shift [of P X "k - length P"] by simp




































subsection \<open>Encoding the same file twice\<close>


















subsection \<open>Fields with an advertised length\<close>





lemma length_le_bytes: "length (le_bytes k c) = k"
  by (simp add: le_bytes_def)












subsection \<open>Failures of the analyser\<close>












































end
